theory Spec2Isabelle
  imports Main "HOL-Library.Word" "HOL-Library.Multiset"
begin

section \<open>RPC utilities of torch/csrc/distributed/rpc/utils.h\<close>

text \<open>
  The header declares the wire codec, the tensor shrinker and the wrapped-payload
  splicer, and defines \<^verbatim>\<open>LazyStreamContext\<close> inline. The inline struct is
  embedded from its code. The declared functions have their bodies in a
  translation unit that is not part of the fragment; they are embedded from the
  specification and from the comments above their declarations, and marked as
  such.
\<close>

subsection \<open>Shared data\<close>

type_synonym byte = "8 word"

text \<open>
  \<^verbatim>\<open>c10::DeviceIndex\<close> is a small signed integer type declared in c10; only
  equality of indices is used here. \<^verbatim>\<open>c10::DeviceType\<close> is an enumeration declared
  in c10; the code below distinguishes CUDA from everything else.
\<close>

type_synonym DeviceIndex = int

datatype DeviceType = CPU | CUDA | OtherDeviceType nat

text \<open>
  The attributes of \<^verbatim>\<open>at::Tensor\<close> that the functions of this header look at:
  the element type tag, the bytes the tensor references, the size in bytes of the
  storage those bytes live in, and the device.
\<close>

record Tensor =
  scalar_type :: byte
  data :: "byte list"
  storage_nbytes :: nat
  device_type :: DeviceType
  device_index :: DeviceIndex

definition is_cuda :: "Tensor \<Rightarrow> bool" where
  "is_cuda t = (device_type t = CUDA)"

subsection \<open>LazyStreamContext\<close>

text \<open>
  \<^verbatim>\<open>stream_factory_t\<close> is \<^verbatim>\<open>std::function<c10::Stream(c10::DeviceIndex)>\<close>. A
  \<^verbatim>\<open>std::function\<close> may be empty, which is what \<^verbatim>\<open>!stream_creator_\<close> tests, so a
  factory is an optional function. \<^verbatim>\<open>c10::Stream\<close> is the type parameter \<open>'s\<close>.
  The member \<^verbatim>\<open>streams_\<close> is an \<^verbatim>\<open>unordered_map\<close>; it is kept as an association
  list with \<open>map_of\<close> for \<^verbatim>\<open>find\<close>. The order in which the real container
  is iterated is unspecified; where the code iterates over it and does something
  observable, the order of the visit is a parameter. The members are written
  without their trailing underscore (\<open>streams\<close>, \<open>stream_creator\<close>,
  \<open>current_stream_provider\<close>), and \<^verbatim>\<open>device_type_\<close> is \<open>ctx_device_type\<close>.
\<close>

type_synonym 's stream_factory_t = "(DeviceIndex \<Rightarrow> 's) option"

record 's LazyStreamContext =
  streams :: "(DeviceIndex \<times> 's) list"
  ctx_device_type :: DeviceType
  stream_creator :: "'s stream_factory_t"
  current_stream_provider :: "'s stream_factory_t"

text \<open>
  What the context does to the outside world: calls of the stream creator and
  the two \<^verbatim>\<open>c10::Event\<close> operations. \<open>EventRecord d s\<close> is an event of device type
  \<open>d\<close> recorded on stream \<open>s\<close>; \<open>EventBlock d s w\<close> makes stream \<open>w\<close> wait for
  the event of type \<open>d\<close> that was recorded on \<open>s\<close>.
\<close>

datatype 's action =
  StreamCreated DeviceIndex 's
  | EventRecord DeviceType 's
  | EventBlock DeviceType 's 's

datatype stream_error =
  NoStreamSupport DeviceIndex \<comment> \<open>the \<^verbatim>\<open>std::runtime_error\<close> of \<^verbatim>\<open>getStream\<close>\<close>
  | BadFunctionCall \<comment> \<open>calling an empty \<^verbatim>\<open>std::function\<close>\<close>

type_synonym 's ctx_state = "'s LazyStreamContext \<times> 's action list"

text \<open>The constructor: the three arguments are stored, the map starts empty.\<close>

definition createLazyStreamContext ::
  "DeviceType \<Rightarrow> 's stream_factory_t \<Rightarrow> 's stream_factory_t \<Rightarrow> 's LazyStreamContext" where
  "createLazyStreamContext dt creator provider =
     \<lparr>streams = [], ctx_device_type = dt, stream_creator = creator,
      current_stream_provider = provider\<rparr>"

text \<open>
  \<^verbatim>\<open>getStream\<close>: throws when the creator is empty; otherwise looks the index up,
  and on a miss calls the creator, stores the stream and returns it. A throw
  leaves the context as it was.
\<close>

definition getStream ::
  "DeviceIndex \<Rightarrow> 's ctx_state \<Rightarrow> (stream_error + 's) \<times> 's ctx_state" where
  "getStream index st =
     (case st of (ctx, tr) \<Rightarrow>
        (case stream_creator ctx of
           None \<Rightarrow> (Inl (NoStreamSupport index), st)
         | Some creator \<Rightarrow>
             (case map_of (streams ctx) index of
                None \<Rightarrow>
                  (let stream = creator index
                   in (Inr stream,
                       (ctx\<lparr>streams := streams ctx @ [(index, stream)]\<rparr>,
                        tr @ [StreamCreated index stream])))
              | Some s \<Rightarrow> (Inr s, st))))"

text \<open>The first loop of \<^verbatim>\<open>waitForCurrentStreams\<close>, over the tensors.\<close>

fun touchStreams ::
  "Tensor list \<Rightarrow> 's ctx_state \<Rightarrow> (stream_error + unit) \<times> 's ctx_state" where
  "touchStreams [] st = (Inr (), st)"
| "touchStreams (t # ts) st =
     (if is_cuda t then
        (case getStream (device_index t) st of
           (Inl e, st') \<Rightarrow> (Inl e, st')
         | (Inr _, st') \<Rightarrow> touchStreams ts st')
      else touchStreams ts st)"

text \<open>
  The body of the second loop, run over the entries of \<^verbatim>\<open>streams_\<close> in the
  order given: an event of the context's device type is recorded on the stream
  the provider returns for the entry's index, and the entry's stream is blocked
  on it. Calling an empty provider throws.
\<close>

fun recordAndBlock ::
  "'s LazyStreamContext \<Rightarrow> (DeviceIndex \<times> 's) list \<Rightarrow> 's action list
     \<Rightarrow> (stream_error + unit) \<times> 's action list" where
  "recordAndBlock ctx [] tr = (Inr (), tr)"
| "recordAndBlock ctx (entry # es) tr =
     (case current_stream_provider ctx of
        None \<Rightarrow> (Inl BadFunctionCall, tr)
      | Some provider \<Rightarrow>
          recordAndBlock ctx es
            (tr @ [EventRecord (ctx_device_type ctx) (provider (fst entry)),
                   EventBlock (ctx_device_type ctx) (provider (fst entry)) (snd entry)]))"

text \<open>
  The second loop is a range-for over the \<^verbatim>\<open>unordered_map\<close>, whose iteration
  order the language leaves to the implementation. \<open>iteration\<close> stands for it:
  applied to the entries of the map it gives them in the order the loop visits
  them. All that is known of it is that it visits every entry once.
\<close>

definition iteration_order ::
  "((DeviceIndex \<times> 's) list \<Rightarrow> (DeviceIndex \<times> 's) list) \<Rightarrow> bool" where
  "iteration_order iteration = (\<forall>es. mset (iteration es) = mset es)"

definition waitForCurrentStreams ::
  "((DeviceIndex \<times> 's) list \<Rightarrow> (DeviceIndex \<times> 's) list) \<Rightarrow> Tensor list \<Rightarrow> 's ctx_state
     \<Rightarrow> (stream_error + unit) \<times> 's ctx_state" where
  "waitForCurrentStreams iteration tensors st =
     (case stream_creator (fst st) of
        None \<Rightarrow> (Inr (), st)
      | Some _ \<Rightarrow>
          (case touchStreams tensors st of
             (Inl e, st') \<Rightarrow> (Inl e, st')
           | (Inr _, (ctx', tr')) \<Rightarrow>
               (case recordAndBlock ctx' (iteration (streams ctx')) tr' of
                  (r, tr'') \<Rightarrow> (r, (ctx', tr'')))))"

text \<open>
  \<^verbatim>\<open>getReservedStreams\<close> fills a vector with the stream of every entry and
  \<^verbatim>\<open>devices\<close> a set with the index of every entry. The vector is given here in
  the order of the entries of the model; what the code fixes is which streams it
  holds and how many.
\<close>

definition getReservedStreams :: "'s LazyStreamContext \<Rightarrow> 's list" where
  "getReservedStreams ctx =
     (case stream_creator ctx of
        None \<Rightarrow> []
      | Some _ \<Rightarrow> map snd (streams ctx))"

definition devices :: "'s LazyStreamContext \<Rightarrow> DeviceIndex set" where
  "devices ctx = set (map fst (streams ctx))"

definition deviceType :: "'s LazyStreamContext \<Rightarrow> DeviceType" where
  "deviceType ctx = ctx_device_type ctx"

text \<open>
  How a context evolves: any sequence of calls of the two mutating members,
  each leaving behind its state whether it returned or threw, and each
  \<^verbatim>\<open>waitForCurrentStreams\<close> visiting the map in some order. The reachable
  states are those that evolve from the state the constructor builds.
\<close>

inductive evolves :: "'s ctx_state \<Rightarrow> 's ctx_state \<Rightarrow> bool" for st :: "'s ctx_state" where
  same: "evolves st st"
| get: "evolves st st1 \<Longrightarrow> getStream index st1 = (r, st2) \<Longrightarrow> evolves st st2"
| wait: "evolves st st1 \<Longrightarrow> iteration_order iteration \<Longrightarrow>
         waitForCurrentStreams iteration tensors st1 = (r', st2) \<Longrightarrow> evolves st st2"

definition reachable ::
  "DeviceType \<Rightarrow> 's stream_factory_t \<Rightarrow> 's stream_factory_t \<Rightarrow> 's ctx_state \<Rightarrow> bool" where
  "reachable dt creator provider st =
     evolves (createLazyStreamContext dt creator provider, []) st"

text \<open>The actions one entry of the map contributes to the second loop.\<close>

definition handoff :: "DeviceType \<Rightarrow> (DeviceIndex \<Rightarrow> 's) \<Rightarrow> DeviceIndex \<times> 's \<Rightarrow> 's action list" where
  "handoff dt provider entry =
     [EventRecord dt (provider (fst entry)), EventBlock dt (provider (fst entry)) (snd entry)]"

fun isStreamCreated :: "'s action \<Rightarrow> bool" where
  "isStreamCreated (StreamCreated _ _) = True"
| "isStreamCreated _ = False"


text \<open>Bookkeeping for the proofs about the context.\<close>

definition grows ::
  "(DeviceIndex \<Rightarrow> 's) \<Rightarrow> DeviceIndex set \<Rightarrow> 's ctx_state \<Rightarrow> 's ctx_state \<Rightarrow> bool" where
  "grows creator D st st' =
     (\<exists>new. fst st' = (fst st)\<lparr>streams := streams (fst st) @ new\<rparr> \<and>
            snd st' = snd st @ map (\<lambda>e. StreamCreated (fst e) (snd e)) new \<and>
            (\<forall>e\<in>set new. snd e = creator (fst e)) \<and>
            distinct (map fst new) \<and>
            fst ` set new = D - fst ` set (streams (fst st)))"

definition keeps :: "'s ctx_state \<Rightarrow> 's ctx_state \<Rightarrow> bool" where
  "keeps st st' = (\<exists>new. fst st' = (fst st)\<lparr>streams := streams (fst st) @ new\<rparr>)"

definition ctx_inv :: "'s stream_factory_t \<Rightarrow> 's ctx_state \<Rightarrow> bool" where
  "ctx_inv creator st =
     (stream_creator (fst st) = creator \<and>
      distinct (map fst (streams (fst st))) \<and>
      filter isStreamCreated (snd st) =
        map (\<lambda>e. StreamCreated (fst e) (snd e)) (streams (fst st)) \<and>
      (creator = None \<longrightarrow> streams (fst st) = []))"

fun createdFor :: "DeviceIndex \<Rightarrow> 's action \<Rightarrow> bool" where
  "createdFor index (StreamCreated i _) = (i = index)"
| "createdFor index _ = False"

subsection \<open>Wire codec\<close>

text \<open>
  Fixed-size integer fields. The specification fixes the width of a buffer
  length at 8 bytes and says the other lengths are stored likewise; it does not
  fix the byte order, which is taken here as most significant byte first. A
  value that does not fit is reduced modulo \<open>2 ^ 64\<close>, as a conversion to a
  64-bit unsigned integer does.
\<close>

fun encode_be :: "nat \<Rightarrow> nat \<Rightarrow> byte list" where
  "encode_be 0 n = []"
| "encode_be (Suc k) n = encode_be k (n div 256) @ [of_nat (n mod 256)]"

definition decode_be :: "byte list \<Rightarrow> nat" where
  "decode_be bs = foldl (\<lambda>acc b. acc * 256 + unat b) 0 bs"

definition encode_u64 :: "nat \<Rightarrow> byte list" where
  "encode_u64 n = encode_be 8 n"

datatype wire_error = TooManyTensors | FormatError

text \<open>The slot of one buffer: the element type tag, then the 8-byte length.\<close>

definition slot :: "Tensor \<Rightarrow> byte list" where
  "slot t = scalar_type t # encode_u64 (length (data t))"

text \<open>
  Modelled from the spec: the body of \<^verbatim>\<open>wireSerialize\<close> is not in the fragment.
  The frame is the count of buffers, one slot per buffer, the length of the
  opaque blob, the blob, and the raw bytes of the buffers one after the other.
  It fails only when the number of buffers does not fit the length field.
\<close>

definition wireSerialize :: "byte list \<Rightarrow> Tensor list \<Rightarrow> wire_error + byte list" where
  "wireSerialize payload tensors =
     (if length tensors < 2 ^ 64 then
        Inr (encode_u64 (length tensors) @ concat (map slot tensors)
             @ encode_u64 (length payload) @ payload @ concat (map data tensors))
      else Inl TooManyTensors)"

text \<open>Readers: each takes the unread input and returns what it read and the rest.\<close>

definition read_bytes :: "nat \<Rightarrow> byte list \<Rightarrow> wire_error + (byte list \<times> byte list)" where
  "read_bytes n bs = (if n \<le> length bs then Inr (take n bs, drop n bs) else Inl FormatError)"

definition read_u64 :: "byte list \<Rightarrow> wire_error + (nat \<times> byte list)" where
  "read_u64 bs =
     (case read_bytes 8 bs of
        Inl e \<Rightarrow> Inl e
      | Inr (field, rest) \<Rightarrow> Inr (decode_be field, rest))"

definition read_tag :: "byte list \<Rightarrow> wire_error + (byte \<times> byte list)" where
  "read_tag bs = (case bs of [] \<Rightarrow> Inl FormatError | b # rest \<Rightarrow> Inr (b, rest))"

fun read_slots :: "nat \<Rightarrow> byte list \<Rightarrow> wire_error + ((byte \<times> nat) list \<times> byte list)" where
  "read_slots 0 bs = Inr ([], bs)"
| "read_slots (Suc n) bs =
     (case read_tag bs of
        Inl e \<Rightarrow> Inl e
      | Inr (ty, r1) \<Rightarrow>
          (case read_u64 r1 of
             Inl e \<Rightarrow> Inl e
           | Inr (len, r2) \<Rightarrow>
               (case read_slots n r2 of
                  Inl e \<Rightarrow> Inl e
                | Inr (slots, r3) \<Rightarrow> Inr ((ty, len) # slots, r3))))"

text \<open>
  A decoded buffer is a new value with the declared element type and the raw
  bytes; it owns its storage and lives on the host.
\<close>

definition from_wire :: "byte \<Rightarrow> byte list \<Rightarrow> Tensor" where
  "from_wire ty bs =
     \<lparr>scalar_type = ty, data = bs, storage_nbytes = length bs,
      device_type = CPU, device_index = - 1\<rparr>"

fun read_buffers :: "(byte \<times> nat) list \<Rightarrow> byte list \<Rightarrow> wire_error + (Tensor list \<times> byte list)" where
  "read_buffers [] bs = Inr ([], bs)"
| "read_buffers ((ty, len) # slots) bs =
     (case read_bytes len bs of
        Inl e \<Rightarrow> Inl e
      | Inr (raw, r1) \<Rightarrow>
          (case read_buffers slots r1 of
             Inl e \<Rightarrow> Inl e
           | Inr (ts, r2) \<Rightarrow> Inr (from_wire ty raw # ts, r2)))"

definition read_frame ::
  "byte list \<Rightarrow> wire_error + ((byte list \<times> Tensor list) \<times> byte list)" where
  "read_frame bs =
     (case read_u64 bs of
        Inl e \<Rightarrow> Inl e
      | Inr (numTensors, r1) \<Rightarrow>
          (case read_slots numTensors r1 of
             Inl e \<Rightarrow> Inl e
           | Inr (slots, r2) \<Rightarrow>
               (case read_u64 r2 of
                  Inl e \<Rightarrow> Inl e
                | Inr (n, r3) \<Rightarrow>
                    (case read_bytes n r3 of
                       Inl e \<Rightarrow> Inl e
                     | Inr (payload, r4) \<Rightarrow>
                         (case read_buffers slots r4 of
                            Inl e \<Rightarrow> Inl e
                          | Inr (tensors, r5) \<Rightarrow> Inr ((payload, tensors), r5))))))"

text \<open>
  Modelled from the spec: the body of \<^verbatim>\<open>wireDeserialize\<close> is not in the fragment.
  It reads the count and the lengths back out and builds new buffers; every read
  that would pass the end of the input is a format error. The specification
  names no other failure, so bytes after the frame are not one.
\<close>

definition wireDeserialize :: "byte list \<Rightarrow> wire_error + (byte list \<times> Tensor list)" where
  "wireDeserialize bs =
     (case read_frame bs of
        Inl e \<Rightarrow> Inl e
      | Inr (result, rest) \<Rightarrow> Inr result)"

text \<open>What of a tensor travels: its element type and its bytes.\<close>

definition on_wire :: "Tensor \<Rightarrow> Tensor" where
  "on_wire t = from_wire (scalar_type t) (data t)"

definition frame_size :: "byte list \<Rightarrow> Tensor list \<Rightarrow> nat" where
  "frame_size payload tensors =
     8 + 9 * length tensors + 8 + length payload + length (concat (map data tensors))"


subsection \<open>Buffer shrinker\<close>

text \<open>
  Modelled from the spec: the body of \<^verbatim>\<open>cloneSparseTensors\<close> is not in the
  fragment. What is in the fragment is the comment above its declaration:
  tensors are cloned \<^verbatim>\<open>if we'd save at least half the data, and over a minimum
  hurdle\<close>. The specification has the second condition as the wasted bytes
  exceeding a fixed minimum, which it leaves open and which is the parameter
  \<open>minWaste\<close>. For the first condition it says that the referenced bytes are
  less than half of the storage, which differs from the header on a view of
  exactly half of its storage; there the header is followed: saving at least half
  means that the storage is at least twice the referenced bytes. A clone is a
  tight copy: the same tensor with a storage of exactly the size of its bytes.
  Order and number of the tensors are kept.
\<close>

definition worthRecopying :: "nat \<Rightarrow> Tensor \<Rightarrow> bool" where
  "worthRecopying minWaste t =
     (2 * length (data t) \<le> storage_nbytes t \<and>
      minWaste < storage_nbytes t - length (data t))"

definition clone :: "Tensor \<Rightarrow> Tensor" where
  "clone t = t\<lparr>storage_nbytes := length (data t)\<rparr>"

definition cloneSparseTensors :: "nat \<Rightarrow> Tensor list \<Rightarrow> Tensor list" where
  "cloneSparseTensors minWaste tensors =
     map (\<lambda>t. if worthRecopying minWaste t then clone t else t) tensors"

subsection \<open>Wrapped-payload splicer\<close>

text \<open>
  Modelled from the spec: the body of \<^verbatim>\<open>writeWrappedPayload\<close> is not in the
  fragment. It appends the wrapper's bytes after the original's bytes, together
  with the wrapper's length, so that \<^verbatim>\<open>readWrappedPayload\<close> can take them off
  again: the header says that after \<^verbatim>\<open>readWrappedPayload\<close> the payload is that
  of the original RPC. The specification has unwrap read the trailing length off
  the end of the payload, and in its formula for wrap writes the length before
  the wrapper. Both cannot hold: a length written before the wrapper cannot be
  found from the end, and that layout has no inverse at all (lemma
  \<open>no_inverse_of_lengthBeforeWrapper\<close> below). The length is therefore written
  where unwrap reads it, after the wrapper. The specification does not give the
  width of the length; it is the 8-byte field of the wire codec here.
\<close>

definition writeWrappedPayload :: "byte list \<Rightarrow> byte list \<Rightarrow> byte list" where
  "writeWrappedPayload originalPayload additionalPayload =
     originalPayload @ additionalPayload @ encode_u64 (length additionalPayload)"

text \<open>
  The layout of the specification's formula,
  \<^verbatim>\<open>outer || length(wrapper) || wrapper\<close>, which is not used.
\<close>

definition lengthBeforeWrapper :: "byte list \<Rightarrow> byte list \<Rightarrow> byte list" where
  "lengthBeforeWrapper originalPayload additionalPayload =
     originalPayload @ encode_u64 (length additionalPayload) @ additionalPayload"

datatype splice_error = WrongPayloadSizes | UnpickleFailed

text \<open>
  Modelled from the spec: the body of \<^verbatim>\<open>readWrappedPayload\<close> is not in the
  fragment. It reads the trailing length off the end of the payload, fails if that
  length exceeds what remains, hands the region of that length at the end of the
  remainder to the structured-value deserializer together with the tensors of the
  message, and truncates the payload to what lies before the region. The
  deserializer belongs to another component and is the parameter \<open>unpickle\<close>.
  The result is the values and the truncated payload.
\<close>

definition readWrappedPayload ::
  "(byte list \<Rightarrow> Tensor list \<Rightarrow> 'v list option) \<Rightarrow> byte list \<Rightarrow> Tensor list
     \<Rightarrow> splice_error + ('v list \<times> byte list)" where
  "readWrappedPayload unpickle payload tensors =
     (if length payload < 8 then Inl WrongPayloadSizes
      else
        (let body = take (length payload - 8) payload;
             additionalPayloadSize = decode_be (drop (length payload - 8) payload)
         in if length body < additionalPayloadSize then Inl WrongPayloadSizes
            else
              (case unpickle (drop (length body - additionalPayloadSize) body) tensors of
                 None \<Rightarrow> Inl UnpickleFailed
               | Some values \<Rightarrow>
                   Inr (values, take (length body - additionalPayloadSize) body))))"

text \<open>
  A serializer and a deserializer for concrete evaluation: the structured values
  are bytes, written and read as they are.
\<close>

definition rawBytes :: "byte list \<Rightarrow> byte list" where
  "rawBytes values = values"

definition rawValues :: "byte list \<Rightarrow> Tensor list \<Rightarrow> byte list option" where
  "rawValues bs tensors = Some bs"

subsection \<open>Concrete values for evaluation\<close>

abbreviation hello :: "byte list" where
  "hello \<equiv> [104, 101, 108, 108, 111]"

abbreviation buffer4 :: Tensor where
  "buffer4 \<equiv> \<lparr>scalar_type = 6, data = [1, 2, 3, 4], storage_nbytes = 4,
     device_type = CPU, device_index = - 1\<rparr>"

abbreviation buffer8 :: Tensor where
  "buffer8 \<equiv> \<lparr>scalar_type = 7, data = [1, 2, 3, 4, 5, 6, 7, 8], storage_nbytes = 8,
     device_type = CPU, device_index = - 1\<rparr>"

abbreviation frame7 :: "byte list" where
  "frame7 \<equiv> [0, 0, 0, 0, 0, 0, 0, 0, 0, 0, 0, 0, 0, 0, 0, 1, 7]"






abbreviation exampleCreator :: "DeviceIndex \<Rightarrow> nat" where
  "exampleCreator \<equiv> (\<lambda>i. nat i + 100)"

abbreviation exampleProvider :: "DeviceIndex \<Rightarrow> nat" where
  "exampleProvider \<equiv> (\<lambda>i. nat i)"

abbreviation hostContext :: "nat LazyStreamContext" where
  "hostContext \<equiv> createLazyStreamContext CPU None None"

abbreviation cudaContext :: "nat LazyStreamContext" where
  "cudaContext \<equiv> createLazyStreamContext CUDA (Some exampleCreator) (Some exampleProvider)"

abbreviation cudaTensor1 :: Tensor where
  "cudaTensor1 \<equiv> \<lparr>scalar_type = 6, data = [1, 2], storage_nbytes = 2,
     device_type = CUDA, device_index = 1\<rparr>"

abbreviation cudaTensor2 :: Tensor where
  "cudaTensor2 \<equiv> \<lparr>scalar_type = 6, data = [3], storage_nbytes = 1,
     device_type = CUDA, device_index = 2\<rparr>"

section \<open>Properties of LazyStreamContext\<close>

subsection \<open>Single calls\<close>

lemma getStream_hit:
  "stream_creator ctx = Some creator \<Longrightarrow> map_of (streams ctx) index = Some s \<Longrightarrow>
     getStream index (ctx, tr) = (Inr s, (ctx, tr))"
  by (simp add: getStream_def)

lemma getStream_miss:
  "stream_creator ctx = Some creator \<Longrightarrow> map_of (streams ctx) index = None \<Longrightarrow>
     getStream index (ctx, tr) =
       (Inr (creator index),
        (ctx\<lparr>streams := streams ctx @ [(index, creator index)]\<rparr>,
         tr @ [StreamCreated index (creator index)]))"
  by (simp add: getStream_def Let_def)

lemma getStream_throw:
  "stream_creator ctx = None \<Longrightarrow> getStream index (ctx, tr) = (Inl (NoStreamSupport index), (ctx, tr))"
  by (simp add: getStream_def)

lemma grows_refl: "grows creator {} st st"
  by (cases st) (simp add: grows_def)

lemma grows_trans:
  assumes "grows creator D st st1" and "grows creator E st1 st2"
  shows "grows creator (D \<union> E) st st2"
proof -
  from assms(1) obtain new where n1:
    "fst st1 = (fst st)\<lparr>streams := streams (fst st) @ new\<rparr>"
    "snd st1 = snd st @ map (\<lambda>e. StreamCreated (fst e) (snd e)) new"
    "\<forall>e\<in>set new. snd e = creator (fst e)" "distinct (map fst new)"
    "fst ` set new = D - fst ` set (streams (fst st))"
    unfolding grows_def by blast
  from assms(2) obtain new' where n2:
    "fst st2 = (fst st1)\<lparr>streams := streams (fst st1) @ new'\<rparr>"
    "snd st2 = snd st1 @ map (\<lambda>e. StreamCreated (fst e) (snd e)) new'"
    "\<forall>e\<in>set new'. snd e = creator (fst e)" "distinct (map fst new')"
    "fst ` set new' = E - fst ` set (streams (fst st1))"
    unfolding grows_def by blast
  have s1: "streams (fst st1) = streams (fst st) @ new" using n1(1) by simp
  have a: "fst st2 = (fst st)\<lparr>streams := streams (fst st) @ (new @ new')\<rparr>"
    using n1(1) n2(1) by simp
  have b: "snd st2 = snd st @ map (\<lambda>e. StreamCreated (fst e) (snd e)) (new @ new')"
    using n1(2) n2(2) by simp
  have c: "\<forall>e\<in>set (new @ new'). snd e = creator (fst e)"
    using n1(3) n2(3) by auto
  have disj: "fst ` set new \<inter> fst ` set new' = {}"
    using n2(5) s1 by auto
  have d: "distinct (map fst (new @ new'))"
    using n1(4) n2(4) disj by simp
  have e: "fst ` set (new @ new') = (D \<union> E) - fst ` set (streams (fst st))"
    using n1(5) n2(5) s1 by auto
  show ?thesis unfolding grows_def using a b c d e by blast
qed

lemma getStream_grows:
  assumes "stream_creator (fst st) = Some creator"
  shows "\<exists>s st'. getStream index st = (Inr s, st') \<and> grows creator {index} st st' \<and>
           map_of (streams (fst st')) index = Some s"
proof (cases st)
  case (Pair ctx tr)
  show ?thesis
  proof (cases "map_of (streams ctx) index")
    case None
    then have notin: "index \<notin> fst ` set (streams ctx)"
      by (simp add: map_of_eq_None_iff)
    have g: "getStream index st = (Inr (creator index),
        (ctx\<lparr>streams := streams ctx @ [(index, creator index)]\<rparr>,
         tr @ [StreamCreated index (creator index)]))"
      using getStream_miss [of ctx creator index tr] assms None Pair by simp
    have "grows creator {index} st (ctx\<lparr>streams := streams ctx @ [(index, creator index)]\<rparr>,
         tr @ [StreamCreated index (creator index)])"
      unfolding grows_def using Pair notin
      by (intro exI [of _ "[(index, creator index)]"]) auto
    moreover have "map_of (streams (ctx\<lparr>streams := streams ctx @ [(index, creator index)]\<rparr>)) index
        = Some (creator index)"
      using None by (simp add: map_add_Some_iff)
    ultimately show ?thesis using g by simp
  next
    case (Some s)
    then have isin: "index \<in> fst ` set (streams ctx)"
      by (metis map_of_eq_None_iff option.distinct(1))
    have g: "getStream index st = (Inr s, st)"
      using getStream_hit [of ctx creator index s tr] assms Some Pair by simp
    have "grows creator {index} st st"
      unfolding grows_def using Pair isin
      by (intro exI [of _ "[]"]) auto
    then show ?thesis using g Some Pair by simp
  qed
qed

lemma grows_creator: "grows creator D st st' \<Longrightarrow> stream_creator (fst st') = stream_creator (fst st)"
  by (auto simp: grows_def)

lemma grows_devices:
  assumes "grows creator D st st'"
  shows "devices (fst st') = devices (fst st) \<union> D"
proof -
  from assms obtain new where
    "streams (fst st') = streams (fst st) @ new" "fst ` set new = D - fst ` set (streams (fst st))"
    unfolding grows_def by auto
  then show ?thesis unfolding devices_def by auto
qed

lemma touchStreams_grows:
  "stream_creator (fst st) = Some creator \<Longrightarrow>
     \<exists>st'. touchStreams ts st = (Inr (), st') \<and>
           grows creator (device_index ` {t \<in> set ts. is_cuda t}) st st'"
proof (induction ts arbitrary: st)
  case Nil
  then show ?case using grows_refl [of creator st] by simp
next
  case (Cons t ts)
  show ?case
  proof (cases "is_cuda t")
    case False
    from Cons.IH [OF Cons.prems] obtain st' where
      "touchStreams ts st = (Inr (), st')"
      "grows creator (device_index ` {t \<in> set ts. is_cuda t}) st st'" by blast
    moreover have "device_index ` {x \<in> set (t # ts). is_cuda x} = device_index ` {t \<in> set ts. is_cuda t}"
      using False by auto
    ultimately show ?thesis using False by simp
  next
    case True
    from getStream_grows [OF Cons.prems, of "device_index t"] obtain s st1 where
      g: "getStream (device_index t) st = (Inr s, st1)" "grows creator {device_index t} st st1"
      by blast
    have c1: "stream_creator (fst st1) = Some creator"
      using grows_creator [OF g(2)] Cons.prems by simp
    from Cons.IH [OF c1] obtain st' where
      t: "touchStreams ts st1 = (Inr (), st')"
      "grows creator (device_index ` {t \<in> set ts. is_cuda t}) st1 st'" by blast
    have "{device_index t} \<union> device_index ` {t \<in> set ts. is_cuda t}
        = device_index ` {x \<in> set (t # ts). is_cuda x}"
      using True by auto
    then have "grows creator (device_index ` {x \<in> set (t # ts). is_cuda x}) st st'"
      using grows_trans [OF g(2) t(2)] by simp
    then show ?thesis using True g(1) t(1) by simp
  qed
qed

lemma recordAndBlock_Some:
  "current_stream_provider ctx = Some provider \<Longrightarrow>
     recordAndBlock ctx es tr =
       (Inr (), tr @ concat (map (handoff (ctx_device_type ctx) provider) es))"
  by (induction es arbitrary: tr) (simp_all add: handoff_def)

lemma recordAndBlock_prefix:
  "\<exists>r tail. recordAndBlock ctx es tr = (r, tr @ tail) \<and> \<not> (\<exists>a\<in>set tail. isStreamCreated a)"
proof (induction es arbitrary: tr)
  case Nil
  then show ?case by simp
next
  case (Cons e es)
  show ?case
  proof (cases "current_stream_provider ctx")
    case None
    then show ?thesis by simp
  next
    case (Some provider)
    from Cons [of "tr @ [EventRecord (ctx_device_type ctx) (provider (fst e)),
                   EventBlock (ctx_device_type ctx) (provider (fst e)) (snd e)]"]
    obtain r tail where "recordAndBlock ctx es (tr @ [EventRecord (ctx_device_type ctx) (provider (fst e)),
                   EventBlock (ctx_device_type ctx) (provider (fst e)) (snd e)]) = (r, (tr @ [EventRecord (ctx_device_type ctx) (provider (fst e)),
                   EventBlock (ctx_device_type ctx) (provider (fst e)) (snd e)]) @ tail)"
      "\<not> (\<exists>a\<in>set tail. isStreamCreated a)" by blast
    then show ?thesis using Some
      by (intro exI [of _ r] exI [of _ "[EventRecord (ctx_device_type ctx) (provider (fst e)),
                   EventBlock (ctx_device_type ctx) (provider (fst e)) (snd e)] @ tail"]) simp
  qed
qed

lemma wait_Some_shape:
  assumes "stream_creator (fst st) = Some creator"
  shows "\<exists>st1 r tail. touchStreams tensors st = (Inr (), st1) \<and>
            grows creator (device_index ` {t \<in> set tensors. is_cuda t}) st st1 \<and>
            waitForCurrentStreams iteration tensors st = (r, (fst st1, snd st1 @ tail)) \<and>
            recordAndBlock (fst st1) (iteration (streams (fst st1))) (snd st1) = (r, snd st1 @ tail) \<and>
            \<not> (\<exists>a\<in>set tail. isStreamCreated a)"
proof -
  from touchStreams_grows [OF assms, of tensors] obtain st1 where
    t: "touchStreams tensors st = (Inr (), st1)"
       "grows creator (device_index ` {t \<in> set tensors. is_cuda t}) st st1" by blast
  from recordAndBlock_prefix [of "fst st1" "iteration (streams (fst st1))" "snd st1"] obtain r tail where
    rb: "recordAndBlock (fst st1) (iteration (streams (fst st1))) (snd st1) = (r, snd st1 @ tail)"
        "\<not> (\<exists>a\<in>set tail. isStreamCreated a)" by blast
  have "waitForCurrentStreams iteration tensors st = (r, (fst st1, snd st1 @ tail))"
    using assms t(1) rb(1) by (cases st1) (simp add: waitForCurrentStreams_def)
  then show ?thesis using t rb by blast
qed

lemma wait_None:
  "stream_creator (fst st) = None \<Longrightarrow> waitForCurrentStreams iteration tensors st = (Inr (), st)"
  by (simp add: waitForCurrentStreams_def)

subsection \<open>Invariant of the reachable states\<close>

lemma filter_created_map:
  "filter isStreamCreated (map (\<lambda>e. StreamCreated (fst e) (snd e)) new) =
     map (\<lambda>e. StreamCreated (fst e) (snd e)) new"
  by (induction new) simp_all

lemma grows_inv:
  assumes "ctx_inv (Some creator) st" and "grows creator D st st'"
  shows "ctx_inv (Some creator) st'"
proof -
  from assms(2) obtain new where n:
    "fst st' = (fst st)\<lparr>streams := streams (fst st) @ new\<rparr>"
    "snd st' = snd st @ map (\<lambda>e. StreamCreated (fst e) (snd e)) new"
    "distinct (map fst new)"
    "fst ` set new = D - fst ` set (streams (fst st))"
    unfolding grows_def by blast
  have d: "distinct (map fst (streams (fst st) @ new))"
    using assms(1) n(3,4) unfolding ctx_inv_def by auto
  have f: "filter isStreamCreated (snd st') =
      map (\<lambda>e. StreamCreated (fst e) (snd e)) (streams (fst st) @ new)"
    using assms(1) n(2) filter_created_map [of new] unfolding ctx_inv_def by simp
  show ?thesis using assms(1) n(1) d f unfolding ctx_inv_def by simp
qed

lemma filter_none:
  "\<not> (\<exists>a\<in>set tail. isStreamCreated a) \<Longrightarrow> filter isStreamCreated tail = []"
  by (induction tail) auto

lemma getStream_inv:
  assumes "ctx_inv creator st" and "getStream index st = (r, st')"
  shows "ctx_inv creator st'"
proof (cases creator)
  case None
  then have "stream_creator (fst st) = None" using assms(1) by (simp add: ctx_inv_def)
  then have "st' = st" using assms(2) getStream_throw [of "fst st" index "snd st"] by simp
  then show ?thesis using assms(1) by simp
next
  case (Some c)
  then have "stream_creator (fst st) = Some c" using assms(1) by (simp add: ctx_inv_def)
  from getStream_grows [OF this, of index] assms(2) have "grows c {index} st st'" by auto
  then show ?thesis using grows_inv assms(1) Some by blast
qed

lemma wait_inv:
  assumes "ctx_inv creator st" and "waitForCurrentStreams iteration tensors st = (r, st')"
  shows "ctx_inv creator st'"
proof (cases creator)
  case None
  then have "stream_creator (fst st) = None" using assms(1) by (simp add: ctx_inv_def)
  then have "st' = st" using assms(2) wait_None [of st iteration tensors] by simp
  then show ?thesis using assms(1) by simp
next
  case (Some c)
  then have "stream_creator (fst st) = Some c" using assms(1) by (simp add: ctx_inv_def)
  from wait_Some_shape [OF this, where tensors = tensors and iteration = iteration] obtain st1 r1 tail where
    w: "grows c (device_index ` {t \<in> set tensors. is_cuda t}) st st1"
       "waitForCurrentStreams iteration tensors st = (r1, (fst st1, snd st1 @ tail))"
       "\<not> (\<exists>a\<in>set tail. isStreamCreated a)" by blast
  have i1: "ctx_inv (Some c) st1" using grows_inv assms(1) Some w(1) by blast
  have "st' = (fst st1, snd st1 @ tail)" using w(2) assms(2) by simp
  then show ?thesis using i1 filter_none [OF w(3)] Some by (simp add: ctx_inv_def)
qed

lemma evolves_inv: "evolves st st' \<Longrightarrow> ctx_inv creator st \<Longrightarrow> ctx_inv creator st'"
  by (induction rule: evolves.induct) (auto intro: getStream_inv wait_inv)

lemma init_inv: "ctx_inv creator (createLazyStreamContext dt creator provider, [])"
  by (simp add: ctx_inv_def createLazyStreamContext_def)

lemma reachable_inv: "reachable dt creator provider st \<Longrightarrow> ctx_inv creator st"
  unfolding reachable_def using evolves_inv init_inv by blast

lemma grows_keeps: "grows creator D st st' \<Longrightarrow> keeps st st'"
  unfolding grows_def keeps_def by blast

lemma keeps_refl: "keeps st st"
  unfolding keeps_def by (intro exI [of _ "[]"]) simp

lemma keeps_trans: "keeps st st1 \<Longrightarrow> keeps st1 st2 \<Longrightarrow> keeps st st2"
  unfolding keeps_def
  by (elim exE, rule_tac x = "new @ newa" in exI) simp

lemma getStream_keeps: "getStream index st = (r, st') \<Longrightarrow> keeps st st'"
proof (cases "stream_creator (fst st)")
  case None
  assume "getStream index st = (r, st')"
  then have "st' = st" using None getStream_throw [of "fst st" index "snd st"] by simp
  then show ?thesis using keeps_refl by simp
next
  case (Some c)
  assume "getStream index st = (r, st')"
  with getStream_grows [OF Some, of index] have "grows c {index} st st'" by auto
  then show ?thesis by (rule grows_keeps)
qed

lemma wait_keeps: "waitForCurrentStreams iteration tensors st = (r, st') \<Longrightarrow> keeps st st'"
proof (cases "stream_creator (fst st)")
  case None
  assume "waitForCurrentStreams iteration tensors st = (r, st')"
  then have "st' = st" using None wait_None [of st iteration tensors] by simp
  then show ?thesis using keeps_refl by simp
next
  case (Some c)
  assume a: "waitForCurrentStreams iteration tensors st = (r, st')"
  from wait_Some_shape [OF Some, where tensors = tensors and iteration = iteration] obtain st1 r1 tail where
    w: "grows c (device_index ` {t \<in> set tensors. is_cuda t}) st st1"
       "waitForCurrentStreams iteration tensors st = (r1, (fst st1, snd st1 @ tail))" by blast
  have "st' = (fst st1, snd st1 @ tail)" using a w(2) by simp
  then have "fst st' = fst st1" by simp
  then show ?thesis using grows_keeps [OF w(1)] unfolding keeps_def by simp
qed

lemma evolves_keeps: "evolves st st' \<Longrightarrow> keeps st st'"
  by (induction rule: evolves.induct) (auto intro: keeps_refl keeps_trans getStream_keeps wait_keeps)

lemma keeps_lookup:
  "keeps st st' \<Longrightarrow> map_of (streams (fst st)) index = Some s \<Longrightarrow>
     map_of (streams (fst st')) index = Some s"
  unfolding keeps_def by (auto simp: map_add_Some_iff)

lemma keeps_creator: "keeps st st' \<Longrightarrow> stream_creator (fst st') = stream_creator (fst st)"
  unfolding keeps_def by auto

lemma createdFor_filter:
  "filter (createdFor index) tr = filter (createdFor index) (filter isStreamCreated tr)"
proof (induction tr)
  case Nil
  then show ?case by simp
next
  case (Cons a tr)
  then show ?case by (cases a) simp_all
qed

lemma createdFor_entries:
  "length (filter (createdFor index) (map (\<lambda>e. StreamCreated (fst e) (snd e)) es)) =
     count_list (map fst es) index"
  by (induction es) simp_all

lemma count_list_distinct:
  "distinct xs \<Longrightarrow> count_list xs x = (if x \<in> set xs then 1 else 0)"
  by (induction xs) auto

lemma inv_created_once:
  assumes "ctx_inv creator st"
  shows "length (filter (createdFor index) (snd st)) = (if index \<in> devices (fst st) then 1 else 0)"
proof -
  have "length (filter (createdFor index) (snd st)) = count_list (map fst (streams (fst st))) index"
    using assms createdFor_filter [of index "snd st"] createdFor_entries [of index "streams (fst st)"]
    unfolding ctx_inv_def by simp
  then show ?thesis using assms count_list_distinct [of "map fst (streams (fst st))" index]
    unfolding ctx_inv_def devices_def by simp
qed

subsection \<open>Claims about the context\<close>

text \<open>
  Claim C7. On a context without a stream creator \<^verbatim>\<open>waitForCurrentStreams\<close>
  returns at once and leaves the context and the outside world as they were. On
  a context with a stream creator and a current-stream provider it returns
  normally, in whatever order the map is iterated. The map afterwards is the map
  before with new entries, one per device index of a CUDA tensor that was not
  tracked yet, each holding the stream the creator returns for it, so every CUDA
  tensor's device is tracked. After the creations the trace consists of the
  hand-offs of the tracked entries, each entry exactly once, in the order of the
  visit: for every tracked entry an event of the context's device type is
  recorded on the stream the provider returns for its index, and directly after
  that the entry's stream is blocked on that event.
\<close>

theorem waitForCurrentStreams_handoff:
  "(stream_creator ctx = None \<longrightarrow>
      waitForCurrentStreams iteration tensors (ctx, tr) = (Inr (), (ctx, tr))) \<and>
   (stream_creator ctx = Some creator \<and> current_stream_provider ctx = Some provider \<and>
    iteration_order iteration \<longrightarrow>
      (\<exists>new ctx' visited.
         ctx' = ctx\<lparr>streams := streams ctx @ new\<rparr> \<and>
         mset visited = mset (streams ctx') \<and>
         waitForCurrentStreams iteration tensors (ctx, tr) =
           (Inr (),
            (ctx',
             tr @ map (\<lambda>e. StreamCreated (fst e) (snd e)) new
                @ concat (map (handoff (ctx_device_type ctx) provider) visited))) \<and>
         (\<forall>e\<in>set (streams ctx'). \<exists>before after.
            concat (map (handoff (ctx_device_type ctx) provider) visited) =
              before @ [EventRecord (ctx_device_type ctx) (provider (fst e)),
                        EventBlock (ctx_device_type ctx) (provider (fst e)) (snd e)] @ after) \<and>
         (\<forall>t\<in>set tensors. is_cuda t \<longrightarrow> device_index t \<in> devices ctx') \<and>
         devices ctx' = devices ctx \<union> device_index ` {t \<in> set tensors. is_cuda t} \<and>
         (\<forall>e\<in>set new. snd e = creator (fst e)) \<and>
         distinct (map fst new) \<and>
         fst ` set new \<inter> devices ctx = {}))"
proof (intro conjI impI)
  assume "stream_creator ctx = None"
  then show "waitForCurrentStreams iteration tensors (ctx, tr) = (Inr (), (ctx, tr))"
    using wait_None [of "(ctx, tr)" iteration tensors] by simp
next
  assume a: "stream_creator ctx = Some creator \<and> current_stream_provider ctx = Some provider \<and>
    iteration_order iteration"
  let ?D = "device_index ` {t \<in> set tensors. is_cuda t}"
  let ?h = "handoff (ctx_device_type ctx) provider"
  have c: "stream_creator (fst (ctx, tr)) = Some creator" using a by simp
  from touchStreams_grows [OF c, of tensors] obtain st1 where
    t: "touchStreams tensors (ctx, tr) = (Inr (), st1)" "grows creator ?D (ctx, tr) st1" by blast
  from t(2) obtain new where n:
    "fst st1 = ctx\<lparr>streams := streams ctx @ new\<rparr>"
    "snd st1 = tr @ map (\<lambda>e. StreamCreated (fst e) (snd e)) new"
    "\<forall>e\<in>set new. snd e = creator (fst e)" "distinct (map fst new)"
    "fst ` set new = ?D - fst ` set (streams ctx)"
    unfolding grows_def by auto
  let ?ctx' = "ctx\<lparr>streams := streams ctx @ new\<rparr>"
  let ?visited = "iteration (streams ?ctx')"
  have p: "current_stream_provider ?ctx' = Some provider" using a by simp
  have st1: "st1 = (?ctx', tr @ map (\<lambda>e. StreamCreated (fst e) (snd e)) new)"
    using n(1,2) by (cases st1) simp
  have ms: "mset ?visited = mset (streams ?ctx')"
    using a unfolding iteration_order_def by blast
  have w: "waitForCurrentStreams iteration tensors (ctx, tr) =
           (Inr (),
            (?ctx',
             tr @ map (\<lambda>e. StreamCreated (fst e) (snd e)) new @ concat (map ?h ?visited)))"
    using a t(1) st1 recordAndBlock_Some [OF p, of ?visited]
    by (simp add: waitForCurrentStreams_def)
  have each: "\<forall>e\<in>set (streams ?ctx'). \<exists>before after.
      concat (map ?h ?visited) =
        before @ [EventRecord (ctx_device_type ctx) (provider (fst e)),
                  EventBlock (ctx_device_type ctx) (provider (fst e)) (snd e)] @ after"
  proof
    fix e assume "e \<in> set (streams ?ctx')"
    then have "e \<in> set ?visited" using ms by (metis set_mset_mset)
    then obtain xs ys where "?visited = xs @ e # ys" by (meson split_list)
    then have "concat (map ?h ?visited) = concat (map ?h xs) @ ?h e @ concat (map ?h ys)"
      by simp
    then show "\<exists>before after.
      concat (map ?h ?visited) =
        before @ [EventRecord (ctx_device_type ctx) (provider (fst e)),
                  EventBlock (ctx_device_type ctx) (provider (fst e)) (snd e)] @ after"
      unfolding handoff_def by blast
  qed
  have dv: "devices ?ctx' = devices ctx \<union> ?D"
    using grows_devices [OF t(2)] n(1) by simp
  then have tch: "\<forall>t\<in>set tensors. is_cuda t \<longrightarrow> device_index t \<in> devices ?ctx'"
    by auto
  have dj: "fst ` set new \<inter> devices ctx = {}"
    using n(5) unfolding devices_def by auto
  show "\<exists>new ctx' visited.
         ctx' = ctx\<lparr>streams := streams ctx @ new\<rparr> \<and>
         mset visited = mset (streams ctx') \<and>
         waitForCurrentStreams iteration tensors (ctx, tr) =
           (Inr (),
            (ctx',
             tr @ map (\<lambda>e. StreamCreated (fst e) (snd e)) new
                @ concat (map (handoff (ctx_device_type ctx) provider) visited))) \<and>
         (\<forall>e\<in>set (streams ctx'). \<exists>before after.
            concat (map (handoff (ctx_device_type ctx) provider) visited) =
              before @ [EventRecord (ctx_device_type ctx) (provider (fst e)),
                        EventBlock (ctx_device_type ctx) (provider (fst e)) (snd e)] @ after) \<and>
         (\<forall>t\<in>set tensors. is_cuda t \<longrightarrow> device_index t \<in> devices ctx') \<and>
         devices ctx' = devices ctx \<union> device_index ` {t \<in> set tensors. is_cuda t} \<and>
         (\<forall>e\<in>set new. snd e = creator (fst e)) \<and>
         distinct (map fst new) \<and>
         fst ` set new \<inter> devices ctx = {}"
    using ms w each tch dv n(3,4) dj by blast
qed

text \<open>
  Witness for C7: a host context with no factories, and a fresh CUDA context that
  sees tensors on devices 1 and 2 and whose map is iterated last entry first, so
  that device 2 is handed off before device 1.
\<close>

theorem waitForCurrentStreams_handoff_witness:
  "stream_creator hostContext = None \<and>
   waitForCurrentStreams rev [cudaTensor1, cudaTensor2] (hostContext, []) =
     (Inr (), (hostContext, [])) \<and>
   stream_creator cudaContext = Some exampleCreator \<and>
   current_stream_provider cudaContext = Some exampleProvider \<and>
   iteration_order (rev :: (DeviceIndex \<times> nat) list \<Rightarrow> (DeviceIndex \<times> nat) list) \<and>
   (\<exists>new ctx' visited.
      ctx' = cudaContext\<lparr>streams := streams cudaContext @ new\<rparr> \<and>
      mset visited = mset (streams ctx') \<and>
      waitForCurrentStreams rev [cudaTensor1, cudaTensor2] (cudaContext, []) =
        (Inr (),
         (ctx',
          [] @ map (\<lambda>e. StreamCreated (fst e) (snd e)) new
             @ concat (map (handoff (ctx_device_type cudaContext) exampleProvider) visited))) \<and>
      (\<forall>e\<in>set (streams ctx'). \<exists>before after.
         concat (map (handoff (ctx_device_type cudaContext) exampleProvider) visited) =
           before @ [EventRecord (ctx_device_type cudaContext) (exampleProvider (fst e)),
                     EventBlock (ctx_device_type cudaContext) (exampleProvider (fst e)) (snd e)]
                  @ after) \<and>
      (\<forall>t\<in>set [cudaTensor1, cudaTensor2]. is_cuda t \<longrightarrow> device_index t \<in> devices ctx') \<and>
      devices ctx' =
        devices cudaContext \<union> device_index ` {t \<in> set [cudaTensor1, cudaTensor2]. is_cuda t} \<and>
      (\<forall>e\<in>set new. snd e = exampleCreator (fst e)) \<and>
      distinct (map fst new) \<and>
      fst ` set new \<inter> devices cudaContext = {}) \<and>
   waitForCurrentStreams rev [cudaTensor1, cudaTensor2] (cudaContext, []) =
     (Inr (),
      (cudaContext\<lparr>streams := [(1, 101), (2, 102)]\<rparr>,
       [StreamCreated 1 101, StreamCreated 2 102,
        EventRecord CUDA 2, EventBlock CUDA 2 102,
        EventRecord CUDA 1, EventBlock CUDA 1 101]))"
proof -
  have h0: "stream_creator hostContext = None"
    by (simp add: createLazyStreamContext_def)
  have h1: "stream_creator cudaContext = Some exampleCreator"
    by (simp add: createLazyStreamContext_def)
  have h2: "current_stream_provider cudaContext = Some exampleProvider"
    by (simp add: createLazyStreamContext_def)
  have h3: "iteration_order (rev :: (DeviceIndex \<times> nat) list \<Rightarrow> (DeviceIndex \<times> nat) list)"
    unfolding iteration_order_def by simp
  have a: "waitForCurrentStreams rev [cudaTensor1, cudaTensor2] (hostContext, []) =
      (Inr (), (hostContext, []))"
    by (rule mp [OF conjunct1 [OF waitForCurrentStreams_handoff
      [where ctx = hostContext and iteration = rev
         and tensors = "[cudaTensor1, cudaTensor2]" and tr = "[]"]] h0])
  have h: "stream_creator cudaContext = Some exampleCreator \<and>
      current_stream_provider cudaContext = Some exampleProvider \<and>
      iteration_order (rev :: (DeviceIndex \<times> nat) list \<Rightarrow> (DeviceIndex \<times> nat) list)"
    by (intro conjI h1 h2 h3)
  note b = mp [OF conjunct2 [OF waitForCurrentStreams_handoff
      [where ctx = cudaContext and creator = exampleCreator and provider = exampleProvider
         and iteration = rev and tensors = "[cudaTensor1, cudaTensor2]" and tr = "[]"]] h]
  have c: "waitForCurrentStreams rev [cudaTensor1, cudaTensor2] (cudaContext, []) =
     (Inr (),
      (cudaContext\<lparr>streams := [(1, 101), (2, 102)]\<rparr>,
       [StreamCreated 1 101, StreamCreated 2 102,
        EventRecord CUDA 2, EventBlock CUDA 2 102,
        EventRecord CUDA 1, EventBlock CUDA 1 101]))"
    by (simp add: waitForCurrentStreams_def getStream_def createLazyStreamContext_def
        is_cuda_def Let_def)
  show ?thesis by (intro conjI h0 a h1 h2 h3 b c)
qed

text \<open>
  Claim C8. On a context without a stream creator \<^verbatim>\<open>getStream\<close> throws for
  every device index, and the context is left as it was.
\<close>

theorem getStream_without_creator_fails:
  "stream_creator ctx = None \<Longrightarrow>
     getStream index (ctx, tr) = (Inl (NoStreamSupport index), (ctx, tr))"
  by (simp add: getStream_def)

text \<open>Witness for C8: the host context, asked for device 3.\<close>

theorem getStream_without_creator_fails_witness:
  "stream_creator hostContext = None \<and>
   getStream 3 (hostContext, []) = (Inl (NoStreamSupport 3), (hostContext, []))"
proof -
  have h: "stream_creator hostContext = None"
    by (simp add: createLazyStreamContext_def)
  show ?thesis using h getStream_without_creator_fails [OF h, where index = 3 and tr = "[]"] by blast
qed

text \<open>
  Claim C9. In a reachable state of a context with a stream creator,
  \<^verbatim>\<open>getStream\<close> returns a stream. If the index was not tracked, the stream is
  the one the creator returns and it is stored under the index; if it was
  tracked, nothing changes. After any further calls, \<^verbatim>\<open>getStream\<close> with the
  same index returns that same stream and changes nothing, the map holds no index
  twice, and the creator was called exactly once for the index.
\<close>

theorem getStream_cached:
  assumes "reachable dt (Some creator) provider st"
    and "getStream index st = (r, st1)"
    and "evolves st1 st2"
  shows "\<exists>s. r = Inr s \<and>
           (index \<notin> devices (fst st) \<longrightarrow>
              s = creator index \<and>
              st1 = ((fst st)\<lparr>streams := streams (fst st) @ [(index, s)]\<rparr>,
                     snd st @ [StreamCreated index s])) \<and>
           (index \<in> devices (fst st) \<longrightarrow> st1 = st) \<and>
           map_of (streams (fst st1)) index = Some s \<and>
           getStream index st2 = (Inr s, st2) \<and>
           distinct (map fst (streams (fst st2))) \<and>
           length (filter (createdFor index) (snd st2)) = 1"
proof -
  have i0: "ctx_inv (Some creator) st" using assms(1) by (rule reachable_inv)
  then have c0: "stream_creator (fst st) = Some creator" by (simp add: ctx_inv_def)
  from getStream_grows [OF c0, of index] assms(2) obtain s where
    s: "r = Inr s" "grows creator {index} st st1" "map_of (streams (fst st1)) index = Some s"
    by auto
  have i1: "ctx_inv (Some creator) st1" using grows_inv [OF i0 s(2)] .
  have i2: "ctx_inv (Some creator) st2" using evolves_inv [OF assms(3) i1] .
  have k: "keeps st1 st2" using assms(3) by (rule evolves_keeps)
  have l2: "map_of (streams (fst st2)) index = Some s" using keeps_lookup [OF k s(3)] .
  have c2: "stream_creator (fst st2) = Some creator" using i2 by (simp add: ctx_inv_def)
  have g2: "getStream index st2 = (Inr s, st2)"
    using getStream_hit [OF c2 l2, of "snd st2"] by simp
  have d2: "distinct (map fst (streams (fst st2)))" using i2 by (simp add: ctx_inv_def)
  have "index \<in> devices (fst st2)"
    using l2 unfolding devices_def by (auto dest: map_of_SomeD intro: rev_image_eqI)
  then have once: "length (filter (createdFor index) (snd st2)) = 1"
    using inv_created_once [OF i2, of index] by simp
  have miss: "index \<notin> devices (fst st) \<longrightarrow>
              s = creator index \<and>
              st1 = ((fst st)\<lparr>streams := streams (fst st) @ [(index, s)]\<rparr>,
                     snd st @ [StreamCreated index s])"
  proof
    assume "index \<notin> devices (fst st)"
    then have "map_of (streams (fst st)) index = None"
      unfolding devices_def by (simp add: map_of_eq_None_iff)
    from getStream_miss [OF c0 this, of "snd st"] assms(2) s(1) show
      "s = creator index \<and>
              st1 = ((fst st)\<lparr>streams := streams (fst st) @ [(index, s)]\<rparr>,
                     snd st @ [StreamCreated index s])" by auto
  qed
  have hit: "index \<in> devices (fst st) \<longrightarrow> st1 = st"
  proof
    assume "index \<in> devices (fst st)"
    then obtain s' where "map_of (streams (fst st)) index = Some s'"
      unfolding devices_def by (metis map_of_eq_None_iff not_Some_eq set_map)
    from getStream_hit [OF c0 this, of "snd st"] assms(2) show "st1 = st" by simp
  qed
  show ?thesis using s(1,3) miss hit g2 d2 once by blast
qed

text \<open>
  Witness for C9: device 1 is requested on the fresh CUDA context, then
  \<^verbatim>\<open>waitForCurrentStreams\<close> runs with a tensor on device 2, then device 1 is
  requested again.
\<close>

theorem getStream_cached_witness:
  "reachable CUDA (Some exampleCreator) (Some exampleProvider) (cudaContext, []) \<and>
   getStream 1 (cudaContext, []) =
     (Inr 101, (cudaContext\<lparr>streams := [(1, 101)]\<rparr>, [StreamCreated 1 101])) \<and>
   evolves (cudaContext\<lparr>streams := [(1, 101)]\<rparr>, [StreamCreated 1 101])
     (snd (waitForCurrentStreams rev [cudaTensor2]
        (cudaContext\<lparr>streams := [(1, 101)]\<rparr>, [StreamCreated 1 101]))) \<and>
   getStream 1 (snd (waitForCurrentStreams rev [cudaTensor2]
        (cudaContext\<lparr>streams := [(1, 101)]\<rparr>, [StreamCreated 1 101]))) =
     (Inr 101, snd (waitForCurrentStreams rev [cudaTensor2]
        (cudaContext\<lparr>streams := [(1, 101)]\<rparr>, [StreamCreated 1 101]))) \<and>
   length (filter (createdFor 1) (snd (snd (waitForCurrentStreams rev [cudaTensor2]
        (cudaContext\<lparr>streams := [(1, 101)]\<rparr>, [StreamCreated 1 101]))))) = 1"
proof -
  let ?st1 = "(cudaContext\<lparr>streams := [(1, 101)]\<rparr>, [StreamCreated 1 (101 :: nat)])"
  let ?w = "waitForCurrentStreams rev [cudaTensor2] ?st1"
  have h1: "reachable CUDA (Some exampleCreator) (Some exampleProvider) (cudaContext, [])"
    unfolding reachable_def by (rule evolves.same)
  have h2: "getStream 1 (cudaContext, []) = (Inr 101, ?st1)"
    by (simp add: getStream_def createLazyStreamContext_def Let_def)
  have "?w = (fst ?w, snd ?w)" by simp
  moreover have "iteration_order (rev :: (DeviceIndex \<times> nat) list \<Rightarrow> (DeviceIndex \<times> nat) list)"
    by (simp add: iteration_order_def)
  ultimately have h3: "evolves ?st1 (snd ?w)"
    using evolves.wait [OF evolves.same, where iteration = rev and tensors = "[cudaTensor2]"
        and st = ?st1 and r' = "fst ?w" and ?st2.0 = "snd ?w"]
    by simp
  from getStream_cached [OF h1 h2 h3]
  have "getStream 1 (snd ?w) = (Inr 101, snd ?w) \<and>
      length (filter (createdFor 1) (snd (snd ?w))) = 1"
    by blast
  then show ?thesis using h1 h2 h3 by blast
qed

text \<open>
  Claim C10. In every reachable state, \<^verbatim>\<open>devices\<close> is the set of indices of
  the map, no index occurs twice in the map, and \<^verbatim>\<open>getReservedStreams\<close> has as
  many elements as \<^verbatim>\<open>devices\<close>. With a stream creator,
  \<^verbatim>\<open>getReservedStreams\<close> lists the stream stored under each index of the map,
  once per index. Without one, both are empty.
\<close>

theorem reserved_streams_devices_consistent:
  assumes "reachable dt creator provider (ctx, tr)"
  shows "(creator = None \<longrightarrow> getReservedStreams ctx = [] \<and> devices ctx = {}) \<and>
         (creator \<noteq> None \<longrightarrow>
            getReservedStreams ctx = map snd (streams ctx) \<and>
            getReservedStreams ctx =
              map (\<lambda>i. the (map_of (streams ctx) i)) (map fst (streams ctx))) \<and>
         devices ctx = set (map fst (streams ctx)) \<and>
         distinct (map fst (streams ctx)) \<and>
         length (getReservedStreams ctx) = card (devices ctx)"
proof -
  have i: "ctx_inv creator (ctx, tr)" using assms by (rule reachable_inv)
  then have c: "stream_creator ctx = creator"
    and d: "distinct (map fst (streams ctx))"
    and e: "creator = None \<longrightarrow> streams ctx = []"
    by (simp_all add: ctx_inv_def)
  have look: "map (\<lambda>i. the (map_of (streams ctx) i)) (map fst (streams ctx)) = map snd (streams ctx)"
    using d by (auto simp: comp_def)
  have card: "card (devices ctx) = length (streams ctx)"
    using d distinct_card [of "map fst (streams ctx)"] unfolding devices_def by simp
  have len: "length (getReservedStreams ctx) = length (streams ctx)"
    using c e by (cases creator) (simp_all add: getReservedStreams_def)
  show ?thesis
    using c d e look card len
    by (cases creator) (simp_all add: getReservedStreams_def devices_def)
qed

text \<open>
  Witness for C10: the host context after a failed \<^verbatim>\<open>getStream\<close>, and the
  CUDA context after a \<^verbatim>\<open>getStream\<close> for device 1.
\<close>

theorem reserved_streams_devices_consistent_witness:
  "reachable CPU None None (hostContext, []) \<and>
   getReservedStreams hostContext = [] \<and> devices hostContext = {} \<and>
   reachable CUDA (Some exampleCreator) (Some exampleProvider)
     (cudaContext\<lparr>streams := [(1, 101)]\<rparr>, [StreamCreated 1 101]) \<and>
   getReservedStreams (cudaContext\<lparr>streams := [(1, 101)]\<rparr>) = [101] \<and>
   devices (cudaContext\<lparr>streams := [(1, 101)]\<rparr>) = {1} \<and>
   length (getReservedStreams (cudaContext\<lparr>streams := [(1, 101)]\<rparr>)) =
     card (devices (cudaContext\<lparr>streams := [(1, 101)]\<rparr>))"
proof -
  have g0: "getStream 3 (hostContext, []) = (Inl (NoStreamSupport 3), (hostContext, []))"
    by (simp add: getStream_def createLazyStreamContext_def)
  have h0: "reachable CPU None None (hostContext, [])"
    unfolding reachable_def using evolves.get [OF evolves.same g0] .
  have g1: "getStream 1 (cudaContext, []) =
      (Inr 101, (cudaContext\<lparr>streams := [(1, 101)]\<rparr>, [StreamCreated 1 101]))"
    by (simp add: getStream_def createLazyStreamContext_def Let_def)
  have h1: "reachable CUDA (Some exampleCreator) (Some exampleProvider)
     (cudaContext\<lparr>streams := [(1, 101)]\<rparr>, [StreamCreated 1 101])"
    unfolding reachable_def using evolves.get [OF evolves.same g1] .
  have a: "getReservedStreams hostContext = [] \<and> devices hostContext = {}"
    using reserved_streams_devices_consistent [OF h0] by blast
  have b: "length (getReservedStreams (cudaContext\<lparr>streams := [(1, 101)]\<rparr>)) =
     card (devices (cudaContext\<lparr>streams := [(1, 101)]\<rparr>))"
    using reserved_streams_devices_consistent [OF h1] by blast
  have c: "getReservedStreams (cudaContext\<lparr>streams := [(1, 101)]\<rparr>) = [101] \<and>
      devices (cudaContext\<lparr>streams := [(1, 101)]\<rparr>) = {1}"
    by (simp add: getReservedStreams_def devices_def createLazyStreamContext_def)
  show ?thesis using h0 h1 a b c by blast
qed

section \<open>Properties of the wire codec\<close>

subsection \<open>Integer fields\<close>

lemma length_encode_be: "length (encode_be k n) = k"
  by (induction k arbitrary: n) simp_all

lemma decode_be_snoc: "decode_be (bs @ [b]) = decode_be bs * 256 + unat b"
  by (simp add: decode_be_def)

lemma decode_encode_be: "n < 256 ^ k \<Longrightarrow> decode_be (encode_be k n) = n"
proof (induction k arbitrary: n)
  case 0
  then show ?case by (simp add: decode_be_def)
next
  case (Suc k)
  have "n div 256 < 256 ^ k" using Suc.prems by (simp add: less_mult_imp_div_less mult.commute)
  then have "decode_be (encode_be k (n div 256)) = n div 256" by (rule Suc.IH)
  moreover have "unat (of_nat (n mod 256) :: byte) = n mod 256"
    by (simp add: unat_of_nat)
  ultimately show ?case by (simp add: decode_be_snoc)
qed

lemma length_encode_u64: "length (encode_u64 n) = 8"
  by (simp add: encode_u64_def length_encode_be)

lemma decode_encode_u64: "n < 2 ^ 64 \<Longrightarrow> decode_be (encode_u64 n) = n"
  using decode_encode_be [of n 8] by (simp add: encode_u64_def)

lemma encode_u64_bytes:
  "encode_u64 n =
     [of_nat (n div 256 div 256 div 256 div 256 div 256 div 256 div 256 mod 256),
      of_nat (n div 256 div 256 div 256 div 256 div 256 div 256 mod 256),
      of_nat (n div 256 div 256 div 256 div 256 div 256 mod 256),
      of_nat (n div 256 div 256 div 256 div 256 mod 256),
      of_nat (n div 256 div 256 div 256 mod 256),
      of_nat (n div 256 div 256 mod 256),
      of_nat (n div 256 mod 256),
      of_nat (n mod 256)]"
proof -
  have e: "(8::nat) = Suc (Suc (Suc (Suc (Suc (Suc (Suc (Suc 0)))))))" by simp
  show ?thesis unfolding encode_u64_def e by (simp only: encode_be.simps append.simps)
qed

subsection \<open>Reading back what was written\<close>

lemma read_bytes_exact: "read_bytes (length xs) (xs @ ys) = Inr (xs, ys)"
  by (simp add: read_bytes_def)

lemma read_u64_encode: "n < 2 ^ 64 \<Longrightarrow> read_u64 (encode_u64 n @ ys) = Inr (n, ys)"
  using read_bytes_exact [of "encode_u64 n" ys]
  by (simp add: read_u64_def length_encode_u64 decode_encode_u64)

lemma read_tag_slot:
  "read_tag (slot t @ ys) = Inr (scalar_type t, encode_u64 (length (data t)) @ ys)"
  by (simp add: slot_def read_tag_def)

lemma read_slots_encode:
  "\<forall>t\<in>set ts. length (data t) < 2 ^ 64 \<Longrightarrow>
     read_slots (length ts) (concat (map slot ts) @ ys) =
       Inr (map (\<lambda>t. (scalar_type t, length (data t))) ts, ys)"
proof (induction ts)
  case Nil
  then show ?case by simp
next
  case (Cons t ts)
  have "read_u64 (encode_u64 (length (data t)) @ (concat (map slot ts) @ ys)) =
          Inr (length (data t), concat (map slot ts) @ ys)"
    using Cons.prems by (intro read_u64_encode) simp
  moreover have "read_slots (length ts) (concat (map slot ts) @ ys) =
       Inr (map (\<lambda>t. (scalar_type t, length (data t))) ts, ys)"
    using Cons by simp
  ultimately show ?case by (simp add: read_tag_slot)
qed

lemma read_buffers_encode:
  "read_buffers (map (\<lambda>t. (scalar_type t, length (data t))) ts) (concat (map data ts) @ ys) =
     Inr (map on_wire ts, ys)"
  by (induction ts) (simp_all add: read_bytes_exact on_wire_def)

lemma read_frame_encode:
  assumes "length ts < 2 ^ 64" "length payload < 2 ^ 64" "\<forall>t\<in>set ts. length (data t) < 2 ^ 64"
  shows "read_frame (encode_u64 (length ts) @ concat (map slot ts)
             @ encode_u64 (length payload) @ payload @ concat (map data ts) @ ys)
         = Inr ((payload, map on_wire ts), ys)"
proof -
  have 1: "read_u64 (encode_u64 (length ts) @ concat (map slot ts)
             @ encode_u64 (length payload) @ payload @ concat (map data ts) @ ys)
          = Inr (length ts, concat (map slot ts)
             @ encode_u64 (length payload) @ payload @ concat (map data ts) @ ys)"
    using assms(1) by (rule read_u64_encode)
  have 2: "read_slots (length ts) (concat (map slot ts)
             @ encode_u64 (length payload) @ payload @ concat (map data ts) @ ys)
          = Inr (map (\<lambda>t. (scalar_type t, length (data t))) ts,
                 encode_u64 (length payload) @ payload @ concat (map data ts) @ ys)"
    using assms(3) by (rule read_slots_encode)
  have 3: "read_u64 (encode_u64 (length payload) @ payload @ concat (map data ts) @ ys)
          = Inr (length payload, payload @ concat (map data ts) @ ys)"
    using assms(2) by (rule read_u64_encode)
  have 4: "read_bytes (length payload) (payload @ concat (map data ts) @ ys)
          = Inr (payload, concat (map data ts) @ ys)"
    by (rule read_bytes_exact)
  show ?thesis
    unfolding read_frame_def by (simp add: 1 2 3 4 read_buffers_encode)
qed

lemma wireSerialize_read_frame:
  assumes "length tensors < 2 ^ 64" "length payload < 2 ^ 64"
    "\<forall>t\<in>set tensors. length (data t) < 2 ^ 64"
  shows "\<exists>frame. wireSerialize payload tensors = Inr frame \<and>
           read_frame frame = Inr ((payload, map on_wire tensors), [])"
  using assms read_frame_encode [OF assms, of "[]"] by (simp add: wireSerialize_def)

subsection \<open>Reading from a longer input\<close>

lemma read_bytes_more:
  "read_bytes n bs = Inr (x, rest) \<Longrightarrow> read_bytes n (bs @ ys) = Inr (x, rest @ ys)"
  by (auto simp: read_bytes_def split: if_splits)

lemma read_u64_more:
  "read_u64 bs = Inr (x, rest) \<Longrightarrow> read_u64 (bs @ ys) = Inr (x, rest @ ys)"
proof -
  assume a: "read_u64 bs = Inr (x, rest)"
  then obtain field where f: "read_bytes 8 bs = Inr (field, rest)" "x = decode_be field"
    by (auto simp: read_u64_def split: sum.splits)
  show ?thesis using read_bytes_more [OF f(1), of ys] f(2) by (simp add: read_u64_def)
qed

lemma read_tag_more:
  "read_tag bs = Inr (x, rest) \<Longrightarrow> read_tag (bs @ ys) = Inr (x, rest @ ys)"
  by (auto simp: read_tag_def split: list.splits)

lemma read_slots_more:
  "read_slots n bs = Inr (x, rest) \<Longrightarrow> read_slots n (bs @ ys) = Inr (x, rest @ ys)"
proof (induction n arbitrary: bs x)
  case 0
  then show ?case by simp
next
  case (Suc n)
  from Suc.prems obtain ty r1 len r2 slots where
    a: "read_tag bs = Inr (ty, r1)" "read_u64 r1 = Inr (len, r2)"
       "read_slots n r2 = Inr (slots, rest)" "x = (ty, len) # slots"
    by (auto split: sum.splits)
  show ?case
    using read_tag_more [OF a(1), of ys] read_u64_more [OF a(2), of ys] Suc.IH [OF a(3)] a(4)
    by simp
qed

lemma read_buffers_more:
  "read_buffers slots bs = Inr (x, rest) \<Longrightarrow> read_buffers slots (bs @ ys) = Inr (x, rest @ ys)"
proof (induction slots bs arbitrary: x rule: read_buffers.induct)
  case (1 bs)
  then show ?case by simp
next
  case (2 ty len slots bs)
  from "2.prems" obtain raw r1 ts where
    a: "read_bytes len bs = Inr (raw, r1)" "read_buffers slots r1 = Inr (ts, rest)"
       "x = from_wire ty raw # ts"
    by (auto split: sum.splits)
  have "read_buffers slots (r1 @ ys) = Inr (ts, rest @ ys)"
    using "2.IH" a(1,2) by simp
  then show ?case using read_bytes_more [OF a(1), of ys] a(3) by simp
qed

lemma read_frame_more:
  assumes "read_frame bs = Inr (x, rest)"
  shows "read_frame (bs @ ys) = Inr (x, rest @ ys)"
proof -
  from assms obtain numTensors r1 slots r2 n r3 payload r4 tensors where
    a: "read_u64 bs = Inr (numTensors, r1)" "read_slots numTensors r1 = Inr (slots, r2)"
       "read_u64 r2 = Inr (n, r3)" "read_bytes n r3 = Inr (payload, r4)"
       "read_buffers slots r4 = Inr (tensors, rest)" "x = (payload, tensors)"
    unfolding read_frame_def by (auto split: sum.splits)
  show ?thesis
    unfolding read_frame_def
    using read_u64_more [OF a(1), of ys] read_slots_more [OF a(2), of ys]
      read_u64_more [OF a(3), of ys] read_bytes_more [OF a(4), of ys]
      read_buffers_more [OF a(5), of ys] a(6)
    by simp
qed

subsection \<open>Errors and consumed input\<close>

lemma read_bytes_error: "read_bytes n bs = Inl e \<Longrightarrow> e = FormatError"
  by (auto simp: read_bytes_def split: if_splits)

lemma read_u64_error: "read_u64 bs = Inl e \<Longrightarrow> e = FormatError"
  by (auto simp: read_u64_def split: sum.splits dest: read_bytes_error)

lemma read_tag_error: "read_tag bs = Inl e \<Longrightarrow> e = FormatError"
  by (auto simp: read_tag_def split: list.splits)

lemma read_slots_error: "read_slots n bs = Inl e \<Longrightarrow> e = FormatError"
  by (induction n arbitrary: bs)
     (auto split: sum.splits dest: read_tag_error read_u64_error)

lemma read_buffers_error: "read_buffers slots bs = Inl e \<Longrightarrow> e = FormatError"
  by (induction slots bs rule: read_buffers.induct)
     (auto split: sum.splits dest: read_bytes_error)

lemma read_frame_error: "read_frame bs = Inl e \<Longrightarrow> e = FormatError"
  unfolding read_frame_def
  by (auto split: sum.splits
      dest!: read_bytes_error read_u64_error read_slots_error read_buffers_error)

lemma wireDeserialize_error: "wireDeserialize bs = Inl e \<Longrightarrow> e = FormatError"
  unfolding wireDeserialize_def by (auto split: sum.splits dest: read_frame_error)

lemma read_bytes_consumed:
  "read_bytes n bs = Inr (x, rest) \<Longrightarrow> length bs = n + length rest \<and> length x = n"
  by (auto simp: read_bytes_def split: if_splits)

lemma read_u64_consumed: "read_u64 bs = Inr (x, rest) \<Longrightarrow> length bs = 8 + length rest"
  by (auto simp: read_u64_def split: sum.splits dest!: read_bytes_consumed)

lemma read_tag_consumed: "read_tag bs = Inr (x, rest) \<Longrightarrow> length bs = 1 + length rest"
  by (auto simp: read_tag_def split: list.splits)

lemma read_slots_consumed:
  "read_slots n bs = Inr (slots, rest) \<Longrightarrow> length bs = 9 * n + length rest \<and> length slots = n"
proof (induction n arbitrary: bs slots)
  case 0
  then show ?case by simp
next
  case (Suc n)
  from Suc.prems obtain ty r1 len r2 slots' where
    a: "read_tag bs = Inr (ty, r1)" "read_u64 r1 = Inr (len, r2)"
       "read_slots n r2 = Inr (slots', rest)" "slots = (ty, len) # slots'"
    by (auto split: sum.splits)
  show ?case
    using read_tag_consumed [OF a(1)] read_u64_consumed [OF a(2)] Suc.IH [OF a(3)] a(4)
    by simp
qed

lemma read_buffers_consumed:
  "read_buffers slots bs = Inr (ts, rest) \<Longrightarrow>
     length bs = length (concat (map data ts)) + length rest \<and> length ts = length slots"
proof (induction slots bs arbitrary: ts rule: read_buffers.induct)
  case (1 bs)
  then show ?case by simp
next
  case (2 ty len slots bs)
  from "2.prems" obtain raw r1 ts' where
    a: "read_bytes len bs = Inr (raw, r1)" "read_buffers slots r1 = Inr (ts', rest)"
       "ts = from_wire ty raw # ts'"
    by (auto split: sum.splits)
  have "length r1 = length (concat (map data ts')) + length rest \<and> length ts' = length slots"
    using "2.IH" a(1,2) by simp
  then show ?case using read_bytes_consumed [OF a(1)] a(3) by (simp add: from_wire_def)
qed

lemma read_frame_consumed:
  assumes "read_frame bs = Inr ((payload, tensors), rest)"
  shows "length bs = frame_size payload tensors + length rest"
proof -
  from assms obtain numTensors r1 slots r2 n r3 r4 where
    a: "read_u64 bs = Inr (numTensors, r1)" "read_slots numTensors r1 = Inr (slots, r2)"
       "read_u64 r2 = Inr (n, r3)" "read_bytes n r3 = Inr (payload, r4)"
       "read_buffers slots r4 = Inr (tensors, rest)"
    unfolding read_frame_def by (auto split: sum.splits)
  show ?thesis
    using read_u64_consumed [OF a(1)] read_slots_consumed [OF a(2)]
      read_u64_consumed [OF a(3)] read_bytes_consumed [OF a(4)]
      read_buffers_consumed [OF a(5)]
    by (simp add: frame_size_def)
qed

subsection \<open>Claims about the codec\<close>

text \<open>
  Claim C1. For every blob and every sequence of buffers, the empty one
  included, whose count and byte lengths are below \<open>2 ^ 64\<close> (what a 64-bit
  \<^verbatim>\<open>size_t\<close> can hold), encoding succeeds and decoding the frame returns the
  blob and a sequence of buffers with the same count and, in the same order, the
  same element types, the same byte lengths and the same bytes.
\<close>

theorem wire_round_trip:
  assumes "length tensors < 2 ^ 64" and "length payload < 2 ^ 64"
    and "\<forall>t\<in>set tensors. length (data t) < 2 ^ 64"
  shows "\<exists>frame decoded.
           wireSerialize payload tensors = Inr frame \<and>
           wireDeserialize frame = Inr (payload, decoded) \<and>
           length decoded = length tensors \<and>
           map scalar_type decoded = map scalar_type tensors \<and>
           map (\<lambda>t. length (data t)) decoded = map (\<lambda>t. length (data t)) tensors \<and>
           map data decoded = map data tensors"
proof -
  from wireSerialize_read_frame [OF assms] obtain frame where
    f: "wireSerialize payload tensors = Inr frame"
       "read_frame frame = Inr ((payload, map on_wire tensors), [])" by blast
  have d: "wireDeserialize frame = Inr (payload, map on_wire tensors)"
    using f(2) by (simp add: wireDeserialize_def)
  have "map scalar_type (map on_wire tensors) = map scalar_type tensors"
    and "map data (map on_wire tensors) = map data tensors"
    and "map (\<lambda>t. length (data t)) (map on_wire tensors) = map (\<lambda>t. length (data t)) tensors"
    by (simp_all add: on_wire_def from_wire_def comp_def)
  then show ?thesis using f(1) d by simp
qed

text \<open>
  Witness for C1: the blob \<^verbatim>\<open>hello\<close> with two buffers of 4 and 8 bytes.
\<close>

theorem wire_round_trip_witness:
  "length [buffer4, buffer8] < 2 ^ 64 \<and> length hello < 2 ^ 64 \<and>
   length (data buffer4) < 2 ^ 64 \<and> length (data buffer8) < 2 ^ 64 \<and>
   (\<exists>frame decoded.
      wireSerialize hello [buffer4, buffer8] = Inr frame \<and>
      wireDeserialize frame = Inr (hello, decoded) \<and>
      length decoded = 2 \<and>
      map scalar_type decoded = [6, 7] \<and>
      map (\<lambda>t. length (data t)) decoded = [4, 8] \<and>
      map data decoded = [[1, 2, 3, 4], [1, 2, 3, 4, 5, 6, 7, 8]])"
proof -
  have h1: "length [buffer4, buffer8] < 2 ^ 64" by simp
  have h2: "length hello < 2 ^ 64" by simp
  have h3: "\<forall>t\<in>set [buffer4, buffer8]. length (data t) < 2 ^ 64" by simp
  from wire_round_trip [OF h1 h2 h3] obtain frame decoded where
    r: "wireSerialize hello [buffer4, buffer8] = Inr frame"
       "wireDeserialize frame = Inr (hello, decoded)"
       "length decoded = length [buffer4, buffer8]"
       "map scalar_type decoded = map scalar_type [buffer4, buffer8]"
       "map (\<lambda>t. length (data t)) decoded = map (\<lambda>t. length (data t)) [buffer4, buffer8]"
       "map data decoded = map data [buffer4, buffer8]"
    by blast
  have l1: "length decoded = 2" using r(3) by simp
  have l2: "map scalar_type decoded = [6, 7]" using r(4) by simp
  have l3: "map (\<lambda>t. length (data t)) decoded = [4, 8]" using r(5) by simp
  have l4: "map data decoded = [[1, 2, 3, 4], [1, 2, 3, 4, 5, 6, 7, 8]]" using r(6) by simp
  show ?thesis
    apply (intro conjI)
        apply (rule h1)
       apply (rule h2)
      apply simp
     apply simp
    apply (rule exI [of _ frame], rule exI [of _ decoded])
    apply (intro conjI)
         apply (rule r(1))
        apply (rule r(2))
       apply (rule l1)
      apply (rule l2)
     apply (rule l3)
    apply (rule l4)
    done
qed

text \<open>
  Claim C2. For every frame that encoding produces from a blob and buffers
  whose byte lengths are below \<open>2 ^ 64\<close>, decoding any strict prefix of the frame
  fails with a format error. And decoding never returns a blob and buffers whose
  frame needs more bytes than the input has: it fails when a length field would
  read past the end.
\<close>

theorem truncated_frame_is_format_error:
  "(wireSerialize payload tensors = Inr frame \<and> length payload < 2 ^ 64 \<and>
    (\<forall>t\<in>set tensors. length (data t) < 2 ^ 64) \<and> n < length frame \<longrightarrow>
      wireDeserialize (take n frame) = Inl FormatError) \<and>
   (length bs < frame_size p ts \<longrightarrow> wireDeserialize bs \<noteq> Inr (p, ts))"
proof (intro conjI impI)
  assume a: "wireSerialize payload tensors = Inr frame \<and> length payload < 2 ^ 64 \<and>
    (\<forall>t\<in>set tensors. length (data t) < 2 ^ 64) \<and> n < length frame"
  then have cnt: "length tensors < 2 ^ 64"
    by (auto simp: wireSerialize_def split: if_splits)
  from wireSerialize_read_frame [OF cnt, of payload] a have
    full: "read_frame frame = Inr ((payload, map on_wire tensors), [])" by auto
  have "read_frame (take n frame) \<noteq> Inr (x, rest)" for x rest
  proof
    assume "read_frame (take n frame) = Inr (x, rest)"
    from read_frame_more [OF this, of "drop n frame"] full
    have "rest @ drop n frame = []" by simp
    then show False using a by simp
  qed
  then obtain e where "wireDeserialize (take n frame) = Inl e"
    unfolding wireDeserialize_def by (cases "read_frame (take n frame)") auto
  then show "wireDeserialize (take n frame) = Inl FormatError"
    using wireDeserialize_error by blast
next
  assume lt: "length bs < frame_size p ts"
  show "wireDeserialize bs \<noteq> Inr (p, ts)"
  proof
    assume "wireDeserialize bs = Inr (p, ts)"
    then obtain rest where "read_frame bs = Inr ((p, ts), rest)"
      unfolding wireDeserialize_def by (auto split: sum.splits)
    from read_frame_consumed [OF this] lt show False by simp
  qed
qed

text \<open>
  Witness for C2: the 17-byte frame of the blob \<^verbatim>\<open>[7]\<close> without buffers, cut
  after 16 bytes, and the empty input.
\<close>

theorem truncated_frame_is_format_error_witness:
  "wireSerialize [7] [] = Inr frame7 \<and> length [7 :: byte] < 2 ^ 64 \<and>
   16 < length frame7 \<and>
   wireDeserialize (take 16 frame7) = Inl FormatError \<and>
   length ([] :: byte list) < frame_size [] [] \<and>
   wireDeserialize [] \<noteq> Inr ([], [])"
proof -
  have h1: "wireSerialize [7] [] = Inr frame7 \<and> length [7 :: byte] < 2 ^ 64 \<and>
      (\<forall>t\<in>set ([] :: Tensor list). length (data t) < 2 ^ 64) \<and> 16 < length frame7"
    by (simp add: wireSerialize_def encode_u64_bytes)
  have h3: "length [7 :: byte] < 2 ^ 64" by simp
  have h2: "length ([] :: byte list) < frame_size [] []"
    by (simp add: frame_size_def)
  show ?thesis
    using h1 h2 h3 truncated_frame_is_format_error
      [where payload = "[7]" and tensors = "[]" and frame = frame7 and n = 16
         and bs = "[]" and p = "[]" and ts = "[]"]
    by blast
qed

section \<open>Properties of the buffer shrinker\<close>



text \<open>
  The minimum of 1 byte is not what makes it fail: whatever the minimum, a view
  of one byte more than the minimum, in a storage of twice its size, occupies
  exactly half of its storage and is cloned.
\<close>

lemma exactly_half_is_cloned_for_every_minimum:
  "2 * length (data (from_wire ty (replicate (Suc minWaste) 0)
                       \<lparr>storage_nbytes := 2 * Suc minWaste\<rparr>)) =
     storage_nbytes (from_wire ty (replicate (Suc minWaste) 0)
                       \<lparr>storage_nbytes := 2 * Suc minWaste\<rparr>) \<and>
   storage_nbytes
     (cloneSparseTensors minWaste
        [from_wire ty (replicate (Suc minWaste) 0)\<lparr>storage_nbytes := 2 * Suc minWaste\<rparr>] ! 0) =
     Suc minWaste"
  by (simp add: cloneSparseTensors_def worthRecopying_def clone_def from_wire_def)



text \<open>
  Claim C4. Shrinking the output of the shrinker again changes nothing.
\<close>

theorem shrink_idempotent: "cloneSparseTensors minWaste (cloneSparseTensors minWaste tensors) =
     cloneSparseTensors minWaste tensors"
  by (simp add: cloneSparseTensors_def worthRecopying_def clone_def)

section \<open>Properties of the wrapped-payload splicer\<close>

text \<open>
  The layout \<^verbatim>\<open>outer || length(wrapper) || wrapper\<close> does not determine where
  the wrapper starts: an empty original with a wrapper of eight zero bytes and an
  original of the eight bytes of the length 8 with an empty wrapper give the same
  payload. So no function at all recovers both parts from every payload of that
  layout.
\<close>

lemma lengthBeforeWrapper_not_injective:
  "lengthBeforeWrapper [] (encode_u64 0) = lengthBeforeWrapper (encode_u64 8) [] \<and>
   ([] :: byte list, encode_u64 0) \<noteq> (encode_u64 8, [])"
  by (simp add: lengthBeforeWrapper_def encode_u64_bytes)

lemma no_inverse_of_lengthBeforeWrapper:
  "\<not> (\<exists>unwrap. \<forall>originalPayload additionalPayload.
         unwrap (lengthBeforeWrapper originalPayload additionalPayload) =
           (originalPayload, additionalPayload))"
proof
  assume "\<exists>unwrap. \<forall>originalPayload additionalPayload.
         unwrap (lengthBeforeWrapper originalPayload additionalPayload) =
           (originalPayload, additionalPayload)"
  then obtain unwrap where u: "\<And>a b. unwrap (lengthBeforeWrapper a b) = (a, b)" by blast
  have "unwrap (lengthBeforeWrapper [] (encode_u64 0)) =
      unwrap (lengthBeforeWrapper (encode_u64 8) [])"
    using lengthBeforeWrapper_not_injective by simp
  then have "([] :: byte list, encode_u64 0) = (encode_u64 8, [])" by (simp only: u)
  then show False using lengthBeforeWrapper_not_injective by simp
qed

lemma readWrappedPayload_trailing:
  assumes "length additionalPayload < 2 ^ 64"
  shows "readWrappedPayload unpickle
           (originalPayload @ additionalPayload @ encode_u64 (length additionalPayload)) tensors =
         (case unpickle additionalPayload tensors of
            None \<Rightarrow> Inl UnpickleFailed
          | Some values \<Rightarrow> Inr (values, originalPayload))"
proof -
  let ?p = "originalPayload @ additionalPayload @ encode_u64 (length additionalPayload)"
  have len: "length ?p - 8 = length originalPayload + length additionalPayload"
    by (simp add: length_encode_u64)
  have body: "take (length ?p - 8) ?p = originalPayload @ additionalPayload"
    unfolding len by simp
  have field: "drop (length ?p - 8) ?p = encode_u64 (length additionalPayload)"
    unfolding len by simp
  have size: "decode_be (drop (length ?p - 8) ?p) = length additionalPayload"
    unfolding field using assms by (rule decode_encode_u64)
  have ge: "\<not> length ?p < 8" by (simp add: length_encode_u64)
  show ?thesis
    unfolding readWrappedPayload_def Let_def body size using ge by (simp split: option.splits)
qed

text \<open>
  Claim C5. For every original payload and every sequence of structured values
  of the wrapper, whatever the serializer, as long as the deserializer reads back
  what the serializer wrote and the serialized wrapper is shorter than \<open>2 ^ 64\<close>
  bytes (what a 64-bit \<^verbatim>\<open>size_t\<close> can hold): unwrapping the payload that
  wrapping produced returns the values of the wrapper and leaves the payload
  truncated to exactly the original bytes.
\<close>

theorem wrap_unwrap_inverse:
  assumes "length (pickle wrapper) < 2 ^ 64"
    and "unpickle (pickle wrapper) tensors = Some wrapper"
  shows "readWrappedPayload unpickle
           (writeWrappedPayload originalPayload (pickle wrapper)) tensors =
         Inr (wrapper, originalPayload)"
  using readWrappedPayload_trailing [OF assms(1), of unpickle originalPayload tensors] assms(2)
  by (simp add: writeWrappedPayload_def)

text \<open>
  Witness for C5: the original \<^verbatim>\<open>[1]\<close> and the wrapper values \<^verbatim>\<open>[2, 3]\<close>.
\<close>

theorem wrap_unwrap_inverse_witness:
  "length (rawBytes [2, 3]) < 2 ^ 64 \<and>
   rawValues (rawBytes [2, 3]) [] = Some [2, 3] \<and>
   readWrappedPayload rawValues (writeWrappedPayload [1] (rawBytes [2, 3])) [] =
     Inr ([2, 3], [1])"
proof -
  have h1: "length (rawBytes [2, 3]) < 2 ^ 64" by (simp add: rawBytes_def)
  have h2: "rawValues (rawBytes [2, 3]) [] = Some [2, 3]"
    by (simp add: rawBytes_def rawValues_def)
  show ?thesis
    by (intro conjI h1 h2
        wrap_unwrap_inverse [where pickle = rawBytes and wrapper = "[2, 3]"
          and unpickle = rawValues and tensors = "[]" and originalPayload = "[1]", OF h1 h2])
qed

end
